theory Spec2Isabelle
  imports Main "HOL-Library.Word" "HOL-Library.Signed_Division" "HOL-Library.AList"
begin

section \<open>ChronoStore: LRU cache, TTL manager, snapshot codec and store\<close>

text \<open>
  The development follows the four source units \<^verbatim>\<open>lru.h\<close>, \<^verbatim>\<open>ttl_manager.h\<close>,
  \<^verbatim>\<open>persistence.h\<close> and \<^verbatim>\<open>store.cpp\<close>. Every C++ exception is a value of
  \<open>error\<close>; a member function that mutates its object returns the new object.
  Locks, threads and storage allocation are outside the model: each operation is
  taken as the atomic step that its lock makes it, and allocation is taken to succeed.
\<close>

datatype error =
    InvalidArgument    \<comment> \<open>\<^verbatim>\<open>LRU capacity must be > 0\<close>\<close>
  | CannotOpenRead     \<comment> \<open>\<^verbatim>\<open>Cannot open file for reading\<close>\<close>
  | CannotOpenWrite    \<comment> \<open>\<^verbatim>\<open>Cannot open file for writing\<close>\<close>
  | WriteError         \<comment> \<open>\<^verbatim>\<open>Write error on file\<close>\<close>
  | BadMagic           \<comment> \<open>\<^verbatim>\<open>Invalid snapshot file (bad magic)\<close>\<close>
  | BadVersion         \<comment> \<open>\<^verbatim>\<open>Unsupported snapshot version\<close>\<close>
  | CorruptCount       \<comment> \<open>\<^verbatim>\<open>Corrupt record count\<close>\<close>
  | ImplausibleLength  \<comment> \<open>\<^verbatim>\<open>Implausible string length in snapshot\<close>\<close>
  | ReadError          \<comment> \<open>\<^verbatim>\<open>Read error on file\<close>\<close>

subsection \<open>\<^verbatim>\<open>lru.h\<close>: class LRUCache\<close>

text \<open>
  \<open>lru_list\<close> is the member \<^verbatim>\<open>list_\<close>, the \<^verbatim>\<open>std::list\<close> of nodes with the most
  recently used node at the front, and \<open>lru_capacity\<close> the member \<^verbatim>\<open>capacity_\<close>
  (an identifier cannot end in an underscore here). The \<^verbatim>\<open>unordered_map\<close> member
  \<^verbatim>\<open>map_\<close> holds for every key the iterator of its node in the list; the embedding
  reads it off the list: \<^verbatim>\<open>map_.find(key)\<close> is the node of the list that carries
  \<open>key\<close>, \<^verbatim>\<open>map_.size()\<close> is the number of nodes. The invariant \<open>LRUCache_inv\<close>
  below (no key on two nodes) is what makes this reading exact, and it is proved to hold
  of every cache the operations build.
\<close>

type_synonym Key = string
type_synonym Value = string
type_synonym Node = "Key \<times> Value"

record LRUCache =
  lru_capacity :: nat
  lru_list :: "Node list"

definition LRUCache_new :: "nat \<Rightarrow> error + LRUCache" where
  "LRUCache_new capacity =
     (if capacity = 0 then Inl InvalidArgument
      else Inr \<lparr>lru_capacity = capacity, lru_list = []\<rparr>)"

text \<open>\<^verbatim>\<open>list_.erase(it)\<close> / the source half of \<^verbatim>\<open>splice\<close>: unlink the node of \<open>key\<close>.\<close>

fun erase_node :: "Key \<Rightarrow> Node list \<Rightarrow> Node list" where
  "erase_node key [] = []"
| "erase_node key (n # ns) = (if fst n = key then ns else n # erase_node key ns)"

definition LRUCache_get :: "LRUCache \<Rightarrow> Key \<Rightarrow> Value option \<times> LRUCache" where
  "LRUCache_get c key =
     (case map_of (lru_list c) key of
        None \<Rightarrow> (None, c)
      | Some v \<Rightarrow> (Some v, c\<lparr>lru_list := (key, v) # erase_node key (lru_list c)\<rparr>))"

text \<open>The result is the evicted key, or the empty string when nothing was evicted.\<close>

definition LRUCache_set :: "LRUCache \<Rightarrow> Key \<Rightarrow> Value \<Rightarrow> Key \<times> LRUCache" where
  "LRUCache_set c key val =
     (case map_of (lru_list c) key of
        Some _ \<Rightarrow> ([], c\<lparr>lru_list := (key, val) # erase_node key (lru_list c)\<rparr>)
      | None \<Rightarrow>
          (let l = (key, val) # lru_list c in
           if length l > lru_capacity c
           then (fst (last l), c\<lparr>lru_list := butlast l\<rparr>)
           else ([], c\<lparr>lru_list := l\<rparr>)))"

definition LRUCache_del :: "LRUCache \<Rightarrow> Key \<Rightarrow> bool \<times> LRUCache" where
  "LRUCache_del c key =
     (case map_of (lru_list c) key of
        None \<Rightarrow> (False, c)
      | Some _ \<Rightarrow> (True, c\<lparr>lru_list := erase_node key (lru_list c)\<rparr>))"

definition LRUCache_contains :: "LRUCache \<Rightarrow> Key \<Rightarrow> bool" where
  "LRUCache_contains c key = (map_of (lru_list c) key \<noteq> None)"

definition LRUCache_entries :: "LRUCache \<Rightarrow> Node list" where
  "LRUCache_entries c = lru_list c"

definition LRUCache_size :: "LRUCache \<Rightarrow> nat" where
  "LRUCache_size c = length (lru_list c)"

definition LRUCache_clear :: "LRUCache \<Rightarrow> LRUCache" where
  "LRUCache_clear c = c\<lparr>lru_list := []\<rparr>"

definition LRUCache_inv :: "LRUCache \<Rightarrow> bool" where
  "LRUCache_inv c =
     (distinct (map fst (lru_list c)) \<and> 0 < lru_capacity c \<and> length (lru_list c) \<le> lru_capacity c)"

subsection \<open>Operation sequences on the cache, with touch stamps\<close>

text \<open>
  A history runs a sequence of cache operations and keeps, beside the cache, a counter
  of the operations run so far and for every key the number of the last operation that
  touched it: a \<open>get\<close> that found the key, or a \<open>set\<close>. The stamps are not state of
  the program; they are the yardstick for "least recently touched".
\<close>

datatype cache_op = Get Key | Set Key Value | Del Key

fun LRUCache_apply :: "LRUCache \<Rightarrow> cache_op \<Rightarrow> LRUCache" where
  "LRUCache_apply c (Get k) = snd (LRUCache_get c k)"
| "LRUCache_apply c (Set k v) = snd (LRUCache_set c k v)"
| "LRUCache_apply c (Del k) = snd (LRUCache_del c k)"

fun touched :: "LRUCache \<Rightarrow> cache_op \<Rightarrow> Key option" where
  "touched c (Get k) = (if LRUCache_contains c k then Some k else None)"
| "touched c (Set k v) = Some k"
| "touched c (Del k) = None"

record history =
  cache :: LRUCache
  tick :: nat
  stamp :: "Key \<Rightarrow> nat"

definition hist_init :: "LRUCache \<Rightarrow> history" where
  "hist_init c = \<lparr>cache = c, tick = 0, stamp = (\<lambda>k. 0)\<rparr>"

definition hist_step :: "history \<Rightarrow> cache_op \<Rightarrow> history" where
  "hist_step h opn =
     \<lparr>cache = LRUCache_apply (cache h) opn,
      tick = Suc (tick h),
      stamp = (case touched (cache h) opn of
                 None \<Rightarrow> stamp h
               | Some k \<Rightarrow> (stamp h)(k := Suc (tick h)))\<rparr>"

fun hist_run :: "history \<Rightarrow> cache_op list \<Rightarrow> history" where
  "hist_run h [] = h"
| "hist_run h (opn # ops) = hist_run (hist_step h opn) ops"

definition hist_inv :: "history \<Rightarrow> bool" where
  "hist_inv h =
     (LRUCache_inv (cache h) \<and>
      sorted_wrt (\<lambda>a b. stamp h b < stamp h a) (map fst (lru_list (cache h))) \<and>
      (\<forall>k \<in> set (map fst (lru_list (cache h))). stamp h k \<le> tick h))"

subsection \<open>\<^verbatim>\<open>ttl_manager.h\<close>: class TTLManager\<close>

text \<open>
  A \<open>TimePoint\<close> is the tick count of a \<^verbatim>\<open>steady_clock::time_point\<close>, a signed 64-bit
  number of nanoseconds (the clock's period in the common standard libraries).
  \<^verbatim>\<open>TTLManager::set\<close> converts its \<^verbatim>\<open>std::chrono::seconds\<close> to nanoseconds and adds them
  to the clock value, both in signed 64-bit arithmetic; an overflow there is undefined
  behaviour in the source and wraps around on the machine, and \<open>wrap64\<close> writes the
  wrap-around out, so that a TTL of 9223372037 seconds or more is covered as well.
  The differences \<open>deadline - now\<close> in \<^verbatim>\<open>ttl\<close> and \<^verbatim>\<open>ttl_ms\<close> are computed in \<open>int\<close>:
  they stay within 64 bits for every deadline that was recorded without overflow.
  \<^verbatim>\<open>duration_cast\<close> truncates towards zero (\<open>sdiv\<close>).
  Every function that calls \<^verbatim>\<open>Clock::now()\<close> takes the value read as its argument
  \<open>now\<close>. \<open>expiry_map\<close> is the member \<^verbatim>\<open>expiry_map_\<close>, an association list with one
  entry per key; the order of its entries stands for the unspecified iteration order of
  the \<^verbatim>\<open>unordered_map\<close>.
\<close>

type_synonym TimePoint = int

definition ticks_per_second :: int where
  "ticks_per_second = 1000000000"

definition ticks_per_ms :: int where
  "ticks_per_ms = 1000000"

record TTLManager =
  expiry_map :: "(Key \<times> TimePoint) list"

text \<open>The value of a signed 64-bit operation whose exact result is \<open>x\<close>.\<close>

definition wrap64 :: "int \<Rightarrow> int" where
  "wrap64 x = (x + 9223372036854775808) mod 18446744073709551616 - 9223372036854775808"

definition TTLManager_set :: "TTLManager \<Rightarrow> TimePoint \<Rightarrow> Key \<Rightarrow> int \<Rightarrow> TTLManager" where
  "TTLManager_set m now key ttl_secs =
     m\<lparr>expiry_map :=
         AList.update key (wrap64 (now + wrap64 (ttl_secs * ticks_per_second))) (expiry_map m)\<rparr>"

definition TTLManager_remove :: "TTLManager \<Rightarrow> Key \<Rightarrow> TTLManager" where
  "TTLManager_remove m key = m\<lparr>expiry_map := AList.delete key (expiry_map m)\<rparr>"

definition TTLManager_ttl :: "TTLManager \<Rightarrow> TimePoint \<Rightarrow> Key \<Rightarrow> int" where
  "TTLManager_ttl m now key =
     (case map_of (expiry_map m) key of
        None \<Rightarrow> - 1
      | Some deadline \<Rightarrow>
          (let remaining = (deadline - now) sdiv ticks_per_second
           in if remaining > 0 then remaining else 0))"

definition TTLManager_ttl_ms :: "TTLManager \<Rightarrow> TimePoint \<Rightarrow> Key \<Rightarrow> int" where
  "TTLManager_ttl_ms m now key =
     (case map_of (expiry_map m) key of
        None \<Rightarrow> - 1
      | Some deadline \<Rightarrow>
          (let remaining = (deadline - now) sdiv ticks_per_ms
           in if remaining > 0 then remaining else 0))"

definition TTLManager_setAbsolute :: "TTLManager \<Rightarrow> Key \<Rightarrow> TimePoint \<Rightarrow> TTLManager" where
  "TTLManager_setAbsolute m key deadline =
     m\<lparr>expiry_map := AList.update key deadline (expiry_map m)\<rparr>"

text \<open>
  One wake-up of \<^verbatim>\<open>run\<close>: collect the keys whose deadline is reached, erase them from
  the map, and hand them to the callback (which the store applies, see \<open>KVStore_wake\<close>).
\<close>

definition expired_keys :: "TTLManager \<Rightarrow> TimePoint \<Rightarrow> Key list" where
  "expired_keys m now = map fst (filter (\<lambda>(key, deadline). now \<ge> deadline) (expiry_map m))"

definition TTLManager_sweep :: "TTLManager \<Rightarrow> TimePoint \<Rightarrow> Key list \<times> TTLManager" where
  "TTLManager_sweep m now =
     (let ks = expired_keys m now
      in (ks, m\<lparr>expiry_map := fold AList.delete ks (expiry_map m)\<rparr>))"

subsection \<open>\<^verbatim>\<open>persistence.h\<close>: struct SnapshotEntry, class PersistenceEngine\<close>

text \<open>
  A file is its sequence of bytes (\<open>char\<close> is the 8-bit byte). An input stream is the
  bytes not yet read together with the \<^verbatim>\<open>failbit\<close> and \<^verbatim>\<open>eofbit\<close> of its state;
  \<^verbatim>\<open>istream::read\<close> of \<open>n\<close> bytes on a stream that is not good sets \<^verbatim>\<open>failbit\<close>
  and stores nothing, on a stream holding fewer than \<open>n\<close> bytes stores what is there
  and sets both bits. A device error (\<^verbatim>\<open>badbit\<close>) does not occur in the model.
  Integers are stored as the little-endian bytes of the host.
\<close>

record SnapshotEntry =
  se_key :: string
  se_value :: string
  se_ttl_ms :: "64 word"

definition MAGIC :: "32 word" where
  "MAGIC = 0x43534442"

definition VERSION :: "32 word" where
  "VERSION = 1"

fun le_bytes :: "nat \<Rightarrow> nat \<Rightarrow> string" where
  "le_bytes 0 v = []"
| "le_bytes (Suc n) v = char_of v # le_bytes n (v div 256)"

fun le_value :: "string \<Rightarrow> nat" where
  "le_value [] = 0"
| "le_value (b # bs) = of_char b + 256 * le_value bs"

record ofstream =
  out_bytes :: string
  out_fail :: bool

text \<open>The stream of a file just opened for writing, truncated.\<close>

definition ofstream_new :: ofstream where
  "ofstream_new = \<lparr>out_bytes = [], out_fail = False\<rparr>"

definition ostream_write :: "string \<Rightarrow> ofstream \<Rightarrow> ofstream" where
  "ostream_write bs ofs = (if out_fail ofs then ofs else ofs\<lparr>out_bytes := out_bytes ofs @ bs\<rparr>)"

definition write32 :: "ofstream \<Rightarrow> 32 word \<Rightarrow> ofstream" where
  "write32 ofs v = ostream_write (le_bytes 4 (unat v)) ofs"

definition write64 :: "ofstream \<Rightarrow> 64 word \<Rightarrow> ofstream" where
  "write64 ofs v = ostream_write (le_bytes 8 (unat v)) ofs"

definition writeString :: "ofstream \<Rightarrow> string \<Rightarrow> ofstream" where
  "writeString ofs s =
     (let len = (word_of_nat (length s) :: 32 word)
      in ostream_write (take (unat len) s) (write32 ofs len))"

fun write_entries :: "ofstream \<Rightarrow> SnapshotEntry list \<Rightarrow> ofstream" where
  "write_entries ofs [] = ofs"
| "write_entries ofs (e # es) =
     write_entries (write64 (writeString (writeString ofs (se_key e)) (se_value e)) (se_ttl_ms e)) es"

text \<open>The bytes that the loop of \<^verbatim>\<open>save\<close> writes for one entry.\<close>

definition entry_bytes :: "SnapshotEntry \<Rightarrow> string" where
  "entry_bytes e =
     out_bytes (write64 (writeString (writeString ofstream_new (se_key e)) (se_value e)) (se_ttl_ms e))"

text \<open>
  \<open>writable\<close> says whether the file could be opened for writing; the result is the
  content of the file written.
\<close>

definition PersistenceEngine_save :: "bool \<Rightarrow> SnapshotEntry list \<Rightarrow> error + string" where
  "PersistenceEngine_save writable entries =
     (if \<not> writable then Inl CannotOpenWrite
      else
        (let ofs0 = ofstream_new;
             ofs1 = write32 ofs0 MAGIC;
             ofs2 = write32 ofs1 VERSION;
             ofs3 = write64 ofs2 (word_of_nat (length entries));
             ofs4 = write_entries ofs3 entries
         in if out_fail ofs4 then Inl WriteError else Inr (out_bytes ofs4)))"

record ifstream =
  in_bytes :: string
  in_fail :: bool
  in_eof :: bool


text \<open>The content of the file that \<^verbatim>\<open>save\<close> writes for the entries \<open>es\<close>.\<close>

definition snapshot_file :: "SnapshotEntry list \<Rightarrow> string" where
  "snapshot_file es =
     le_bytes 4 (unat MAGIC) @ le_bytes 4 (unat VERSION) @
     le_bytes 8 (unat (word_of_nat (length es) :: 64 word)) @ concat (map entry_bytes es)"

text \<open>The stream of a file just opened for reading, with content \<open>bytes\<close>.\<close>

definition ifstream_of :: "string \<Rightarrow> ifstream" where
  "ifstream_of bytes = \<lparr>in_bytes = bytes, in_fail = False, in_eof = False\<rparr>"

text \<open>The result holds the bytes stored into the caller's buffer.\<close>

definition istream_read :: "nat \<Rightarrow> ifstream \<Rightarrow> string \<times> ifstream" where
  "istream_read n ifs =
     (if in_fail ifs \<or> in_eof ifs then ([], ifs\<lparr>in_fail := True\<rparr>)
      else if n \<le> length (in_bytes ifs)
      then (take n (in_bytes ifs), ifs\<lparr>in_bytes := drop n (in_bytes ifs)\<rparr>)
      else (in_bytes ifs, ifs\<lparr>in_bytes := [], in_fail := True, in_eof := True\<rparr>))"

text \<open>A buffer of \<open>n\<close> zero bytes after \<open>got\<close> was stored at its start.\<close>

definition zero_filled :: "nat \<Rightarrow> string \<Rightarrow> string" where
  "zero_filled n got = got @ replicate (n - length got) (char_of (0::nat))"

definition read32 :: "ifstream \<Rightarrow> 32 word \<times> ifstream" where
  "read32 ifs =
     (let (got, ifs') = istream_read 4 ifs
      in (word_of_nat (le_value (zero_filled 4 got)), ifs'))"

definition read64 :: "ifstream \<Rightarrow> 64 word \<times> ifstream" where
  "read64 ifs =
     (let (got, ifs') = istream_read 8 ifs
      in (word_of_nat (le_value (zero_filled 8 got)), ifs'))"

definition readString :: "ifstream \<Rightarrow> error + (string \<times> ifstream)" where
  "readString ifs =
     (let (len, ifs1) = read32 ifs
      in if unat len > 1024 * 1024 then Inl ImplausibleLength
         else (let (got, ifs2) = istream_read (unat len) ifs1
               in Inr (zero_filled (unat len) got, ifs2)))"

fun read_entries :: "nat \<Rightarrow> ifstream \<Rightarrow> error + (SnapshotEntry list \<times> ifstream)" where
  "read_entries 0 ifs = Inr ([], ifs)"
| "read_entries (Suc n) ifs =
     (case readString ifs of
        Inl e \<Rightarrow> Inl e
      | Inr (k, ifs1) \<Rightarrow>
          (case readString ifs1 of
             Inl e \<Rightarrow> Inl e
           | Inr (v, ifs2) \<Rightarrow>
               (let (t, ifs3) = read64 ifs2
                in case read_entries n ifs3 of
                     Inl e \<Rightarrow> Inl e
                   | Inr (es, ifs4) \<Rightarrow>
                       Inr (\<lparr>se_key = k, se_value = v, se_ttl_ms = t\<rparr> # es, ifs4))))"

text \<open>\<open>file\<close> is the content of the file named, or \<open>None\<close> when it cannot be opened.\<close>

definition PersistenceEngine_load :: "string option \<Rightarrow> error + SnapshotEntry list" where
  "PersistenceEngine_load file =
     (case file of
        None \<Rightarrow> Inl CannotOpenRead
      | Some bytes \<Rightarrow>
          (let ifs0 = ifstream_of bytes;
               (magic, ifs1) = read32 ifs0;
               (version, ifs2) = read32 ifs1
           in if magic \<noteq> MAGIC then Inl BadMagic
              else if version \<noteq> VERSION then Inl BadVersion
              else (let (count, ifs3) = read64 ifs2
                    in if sint count < 0 then Inl CorruptCount
                       else (case read_entries (nat (sint count)) ifs3 of
                               Inl e \<Rightarrow> Inl e
                             | Inr (entries, ifs4) \<Rightarrow>
                                 if in_fail ifs4 \<and> \<not> in_eof ifs4 then Inl ReadError
                                 else Inr entries))))"

subsection \<open>\<^verbatim>\<open>store.cpp\<close>: class KVStore\<close>

text \<open>
  \<open>kv_cache\<close> and \<open>kv_ttl\<close> are the members \<^verbatim>\<open>cache_\<close> and \<^verbatim>\<open>ttl_mgr_\<close>; the six
  counters are the \<^verbatim>\<open>std::atomic<uint64_t>\<close> members of the same names.
\<close>

record KVStore =
  kv_cache :: LRUCache
  kv_ttl :: TTLManager
  hits :: "64 word"
  misses :: "64 word"
  evictions :: "64 word"
  sets :: "64 word"
  dels :: "64 word"
  expirations :: "64 word"

definition KVStore_new :: "nat \<Rightarrow> error + KVStore" where
  "KVStore_new capacity =
     (case LRUCache_new capacity of
        Inl e \<Rightarrow> Inl e
      | Inr c \<Rightarrow>
          Inr \<lparr>kv_cache = c, kv_ttl = \<lparr>expiry_map = []\<rparr>,
               hits = 0, misses = 0, evictions = 0, sets = 0, dels = 0, expirations = 0\<rparr>)"

definition KVStore_set :: "KVStore \<Rightarrow> TimePoint \<Rightarrow> Key \<Rightarrow> Value \<Rightarrow> int \<Rightarrow> Key \<times> KVStore" where
  "KVStore_set s now key val ttl_seconds =
     (let (evicted, c) = LRUCache_set (kv_cache s) key val;
          s1 = s\<lparr>kv_cache := c\<rparr>;
          s2 = (if evicted \<noteq> []
                then s1\<lparr>kv_ttl := TTLManager_remove (kv_ttl s1) evicted,
                        evictions := evictions s1 + 1\<rparr>
                else s1);
          s3 = (if ttl_seconds > 0
                then s2\<lparr>kv_ttl := TTLManager_set (kv_ttl s2) now key ttl_seconds\<rparr>
                else s2\<lparr>kv_ttl := TTLManager_remove (kv_ttl s2) key\<rparr>)
      in (evicted, s3\<lparr>sets := sets s3 + 1\<rparr>))"

definition KVStore_get :: "KVStore \<Rightarrow> Key \<Rightarrow> Value option \<times> KVStore" where
  "KVStore_get s key =
     (let (result, c) = LRUCache_get (kv_cache s) key;
          s1 = s\<lparr>kv_cache := c\<rparr>
      in (result, if result \<noteq> None then s1\<lparr>hits := hits s1 + 1\<rparr>
                  else s1\<lparr>misses := misses s1 + 1\<rparr>))"

definition KVStore_del :: "KVStore \<Rightarrow> Key \<Rightarrow> bool \<times> KVStore" where
  "KVStore_del s key =
     (let (existed, c) = LRUCache_del (kv_cache s) key;
          s1 = s\<lparr>kv_cache := c\<rparr>
      in (existed, if existed
                   then s1\<lparr>kv_ttl := TTLManager_remove (kv_ttl s1) key, dels := dels s1 + 1\<rparr>
                   else s1))"

definition KVStore_ttl :: "KVStore \<Rightarrow> TimePoint \<Rightarrow> Key \<Rightarrow> int" where
  "KVStore_ttl s now key =
     (if \<not> LRUCache_contains (kv_cache s) key then - 2
      else TTLManager_ttl (kv_ttl s) now key)"

definition KVStore_keys :: "KVStore \<Rightarrow> Key list" where
  "KVStore_keys s = map fst (LRUCache_entries (kv_cache s))"

definition KVStore_flush :: "KVStore \<Rightarrow> KVStore" where
  "KVStore_flush s = s\<lparr>kv_cache := LRUCache_clear (kv_cache s)\<rparr>"

definition KVStore_size :: "KVStore \<Rightarrow> nat" where
  "KVStore_size s = LRUCache_size (kv_cache s)"

definition KVStore_capacity :: "KVStore \<Rightarrow> nat" where
  "KVStore_capacity s = lru_capacity (kv_cache s)"

text \<open>
  The loop of \<^verbatim>\<open>save\<close> calls \<^verbatim>\<open>ttl_ms\<close>, and with it \<^verbatim>\<open>Clock::now()\<close>, once for
  every entry; \<open>clk k\<close> is the clock value read while the entry of key \<open>k\<close> is handled.
\<close>

fun save_entries :: "TTLManager \<Rightarrow> (Key \<Rightarrow> TimePoint) \<Rightarrow> Node list \<Rightarrow> SnapshotEntry list" where
  "save_entries m clk [] = []"
| "save_entries m clk ((k, v) # ns) =
     (let remaining_ms = TTLManager_ttl_ms m (clk k) k
      in if remaining_ms = 0 then save_entries m clk ns
         else \<lparr>se_key = k, se_value = v, se_ttl_ms = word_of_int remaining_ms\<rparr>
              # save_entries m clk ns)"


definition KVStore_save :: "KVStore \<Rightarrow> (Key \<Rightarrow> TimePoint) \<Rightarrow> bool \<Rightarrow> error + string" where
  "KVStore_save s clk writable =
     PersistenceEngine_save writable
       (save_entries (kv_ttl s) clk (LRUCache_entries (kv_cache s)))"

text \<open>
  The loop of \<^verbatim>\<open>load\<close>. The deadline \<open>now + ttl_ms\<close> is computed in \<open>int\<close>: the
  conversion of the milliseconds to nanoseconds is exact for every file that \<^verbatim>\<open>save\<close>
  writes, whose TTLs are at most 9223372036854 ms.
\<close>

fun load_entries ::
  "TimePoint \<Rightarrow> SnapshotEntry list \<Rightarrow> LRUCache \<times> TTLManager \<Rightarrow> LRUCache \<times> TTLManager" where
  "load_entries now [] (c, m) = (c, m)"
| "load_entries now (e # es) (c, m) =
     (if sint (se_ttl_ms e) = 0 then load_entries now es (c, m)
      else
        (let c' = snd (LRUCache_set c (se_key e) (se_value e));
             m' = (if sint (se_ttl_ms e) > 0
                   then TTLManager_setAbsolute m (se_key e)
                          (now + sint (se_ttl_ms e) * ticks_per_ms)
                   else m)
         in load_entries now es (c', m')))"

text \<open>
  The first component is the exception that leaves \<^verbatim>\<open>load\<close>, if any; the second is the
  store afterwards.
\<close>

definition KVStore_load :: "KVStore \<Rightarrow> TimePoint \<Rightarrow> string option \<Rightarrow> (error + unit) \<times> KVStore" where
  "KVStore_load s now file =
     (case PersistenceEngine_load file of
        Inl e \<Rightarrow> (Inl e, s)
      | Inr raw \<Rightarrow>
          (let (c, m) = load_entries now raw (LRUCache_clear (kv_cache s), kv_ttl s)
           in (Inr (), s\<lparr>kv_cache := c, kv_ttl := m\<rparr>)))"

definition KVStore_onExpire :: "KVStore \<Rightarrow> Key \<Rightarrow> KVStore" where
  "KVStore_onExpire s key =
     (let (existed, c) = LRUCache_del (kv_cache s) key;
          s1 = s\<lparr>kv_cache := c\<rparr>
      in if existed then s1\<lparr>expirations := expirations s1 + 1\<rparr> else s1)"

text \<open>One wake-up of the manager's thread, with the callback the constructor wires in.\<close>

definition KVStore_wake :: "KVStore \<Rightarrow> TimePoint \<Rightarrow> KVStore" where
  "KVStore_wake s now =
     (let (ks, m) = TTLManager_sweep (kv_ttl s) now
      in fold (\<lambda>k s'. KVStore_onExpire s' k) ks (s\<lparr>kv_ttl := m\<rparr>))"

subsection \<open>Concrete stores and files\<close>

text \<open>
  The inputs at which the theorems below are evaluated: new stores of capacity 1 and 2,
  stores reached from them by \<open>set\<close>, the snapshot file of the single record (a, 1,
  no TTL), four damaged copies of that file, the snapshot file without records, and the
  one with the records (b, 2, no TTL) and (a, 1, 29000 ms).
\<close>

definition store1 :: KVStore where
  "store1 = \<lparr>kv_cache = \<lparr>lru_capacity = 1, lru_list = []\<rparr>, kv_ttl = \<lparr>expiry_map = []\<rparr>,
              hits = 0, misses = 0, evictions = 0, sets = 0, dels = 0, expirations = 0\<rparr>"

definition entry_a :: SnapshotEntry where
  "entry_a = \<lparr>se_key = ''a'', se_value = ''1'', se_ttl_ms = - 1\<rparr>"

definition header1 :: string where
  "header1 = [CHR ''B'', CHR ''D'', CHR ''S'', CHR ''C'', CHR 0x01, CHR 0x00, CHR 0x00, CHR 0x00,
              CHR 0x01, CHR 0x00, CHR 0x00, CHR 0x00, CHR 0x00, CHR 0x00, CHR 0x00, CHR 0x00]"

definition file_a :: string where
  "file_a = header1 @
     [CHR 0x01, CHR 0x00, CHR 0x00, CHR 0x00, CHR ''a'',
      CHR 0x01, CHR 0x00, CHR 0x00, CHR 0x00, CHR ''1'',
      CHR 0xFF, CHR 0xFF, CHR 0xFF, CHR 0xFF, CHR 0xFF, CHR 0xFF, CHR 0xFF, CHR 0xFF]"

definition file_bad_magic :: string where
  "file_bad_magic = CHR ''X'' # tl file_a"

definition file_bad_version :: string where
  "file_bad_version = [CHR ''B'', CHR ''D'', CHR ''S'', CHR ''C'', CHR 0x02, CHR 0x00, CHR 0x00, CHR 0x00]
     @ drop 8 file_a"

definition file_bad_count :: string where
  "file_bad_count = take 8 file_a @ replicate 8 (CHR 0xFF) @ drop 16 file_a"

definition file_bad_length :: string where
  "file_bad_length = header1 @ [CHR 0x00, CHR 0x00, CHR 0x20, CHR 0x00] @ drop 20 file_a"

definition store_a30 :: KVStore where
  "store_a30 = snd (KVStore_set store1 0 ''a'' ''0'' 30)"

definition store_e30 :: KVStore where
  "store_e30 = snd (KVStore_set store1 0 [] ''v'' 30)"


definition store2 :: KVStore where
  "store2 = \<lparr>kv_cache = \<lparr>lru_capacity = 2, lru_list = []\<rparr>, kv_ttl = \<lparr>expiry_map = []\<rparr>,
              hits = 0, misses = 0, evictions = 0, sets = 0, dels = 0, expirations = 0\<rparr>"

definition store_ab :: KVStore where
  "store_ab = snd (KVStore_set (snd (KVStore_set store2 0 ''a'' ''1'' 30)) 0 ''b'' ''2'' (- 1))"

text \<open>Clock readings during a save: one second, and two seconds, after time 0.\<close>

definition clk_at1 :: "Key \<Rightarrow> TimePoint" where
  "clk_at1 k = 1000000000"



definition file_ab :: string where
  "file_ab = [CHR ''B'', CHR ''D'', CHR ''S'', CHR ''C'', CHR 0x01, CHR 0x00, CHR 0x00, CHR 0x00,
              CHR 0x02, CHR 0x00, CHR 0x00, CHR 0x00, CHR 0x00, CHR 0x00, CHR 0x00, CHR 0x00,
              CHR 0x01, CHR 0x00, CHR 0x00, CHR 0x00, CHR ''b'',
              CHR 0x01, CHR 0x00, CHR 0x00, CHR 0x00, CHR ''2'',
              CHR 0xFF, CHR 0xFF, CHR 0xFF, CHR 0xFF, CHR 0xFF, CHR 0xFF, CHR 0xFF, CHR 0xFF,
              CHR 0x01, CHR 0x00, CHR 0x00, CHR 0x00, CHR ''a'',
              CHR 0x01, CHR 0x00, CHR 0x00, CHR 0x00, CHR ''1'',
              CHR 0x48, CHR 0x71, CHR 0x00, CHR 0x00, CHR 0x00, CHR 0x00, CHR 0x00, CHR 0x00]"

section \<open>The cache keeps its capacity and evicts the least recently touched key\<close>

lemma keys_erase_node: "map fst (erase_node k ns) = remove1 k (map fst ns)"
  by (induction ns) auto

lemma sorted_wrt_remove1_keys: "sorted_wrt P xs \<Longrightarrow> sorted_wrt P (remove1 k xs)"
proof (induction xs)
  case Nil
  then show ?case by simp
next
  case (Cons x xs)
  have "set (remove1 k xs) \<subseteq> set xs" by (rule set_remove1_subset)
  with Cons show ?case by auto
qed

lemma sorted_wrt_butlast_keys: "sorted_wrt P xs \<Longrightarrow> sorted_wrt P (butlast xs)"
  by (simp add: butlast_conv_take sorted_wrt_take)

lemma distinct_keys_butlast: "distinct (map fst xs) \<Longrightarrow> distinct (map fst (butlast xs))"
  by (simp add: map_butlast distinct_butlast)

lemma map_of_None_keys: "(map_of ns k = None) = (k \<notin> set (map fst ns))"
  by (simp add: map_of_eq_None_iff)

lemma map_of_Some_keys: "map_of ns k = Some v \<Longrightarrow> k \<in> set (map fst ns)"
  by (metis map_of_None_keys option.distinct(1))

lemma length_erase_node: "k \<in> set (map fst ns) \<Longrightarrow> Suc (length (erase_node k ns)) = length ns"
  by (induction ns) auto

lemma LRUCache_inv_touch:
  assumes "LRUCache_inv c" and "k \<in> set (map fst (lru_list c))"
  shows "LRUCache_inv (c\<lparr>lru_list := (k, v) # erase_node k (lru_list c)\<rparr>)"
  using assms length_erase_node [of k "lru_list c"]
  by (auto simp: LRUCache_inv_def keys_erase_node)

lemma LRUCache_inv_get: "LRUCache_inv c \<Longrightarrow> LRUCache_inv (snd (LRUCache_get c k))"
  by (auto simp: LRUCache_get_def LRUCache_inv_touch dest: map_of_Some_keys split: option.splits)

lemma LRUCache_inv_set: "LRUCache_inv c \<Longrightarrow> LRUCache_inv (snd (LRUCache_set c k v))"
proof (cases "map_of (lru_list c) k")
  case None
  assume inv: "LRUCache_inv c"
  from None have nk: "k \<notin> set (map fst (lru_list c))" by (simp add: map_of_None_keys)
  show ?thesis
  proof (cases "length (lru_list c) < lru_capacity c")
    case True
    with inv nk None show ?thesis by (auto simp: LRUCache_set_def LRUCache_inv_def)
  next
    case False
    with inv have ne: "lru_list c \<noteq> []" by (auto simp: LRUCache_inv_def)
    have "distinct (map fst ((k, v) # lru_list c))"
      using inv nk by (simp add: LRUCache_inv_def)
    then have "distinct (map fst (butlast ((k, v) # lru_list c)))"
      by (rule distinct_keys_butlast)
    with inv False None ne show ?thesis by (auto simp: LRUCache_set_def LRUCache_inv_def Let_def)
  qed
next
  case (Some w)
  assume inv: "LRUCache_inv c"
  with Some show ?thesis
    by (auto simp: LRUCache_set_def LRUCache_inv_touch dest: map_of_Some_keys)
qed

lemma length_erase_node_le: "length (erase_node k ns) \<le> length ns"
  by (induction ns) auto

lemma LRUCache_inv_del: "LRUCache_inv c \<Longrightarrow> LRUCache_inv (snd (LRUCache_del c k))"
  using length_erase_node_le [of k "lru_list c"]
  by (auto simp: LRUCache_del_def LRUCache_inv_def keys_erase_node split: option.splits)


lemma hist_inv_touch:
  assumes inv: "hist_inv h" and k: "k \<in> set (map fst (lru_list (cache h)))"
  shows "hist_inv \<lparr>cache = (cache h)\<lparr>lru_list := (k, v) # erase_node k (lru_list (cache h))\<rparr>,
                   tick = Suc (tick h), stamp = (stamp h)(k := Suc (tick h))\<rparr>"
proof -
  let ?ks = "map fst (lru_list (cache h))"
  let ?st = "(stamp h)(k := Suc (tick h))"
  from inv have d: "distinct ?ks" and bound: "\<forall>x \<in> set ?ks. stamp h x \<le> tick h"
    and srt: "sorted_wrt (\<lambda>a b. stamp h b < stamp h a) ?ks"
    by (auto simp: hist_inv_def LRUCache_inv_def)
  from d have nk: "k \<notin> set (remove1 k ?ks)" by simp
  have sub: "set (remove1 k ?ks) \<subseteq> set ?ks" by (rule set_remove1_subset)
  from srt have "sorted_wrt (\<lambda>a b. stamp h b < stamp h a) (remove1 k ?ks)"
    by (rule sorted_wrt_remove1_keys)
  then have s1: "sorted_wrt (\<lambda>a b. ?st b < ?st a) (remove1 k ?ks)"
    by (rule sorted_wrt_mono_rel [rotated]) (use nk in auto)
  have s2: "\<forall>x \<in> set (remove1 k ?ks). ?st x < ?st k"
    using nk sub bound by (auto simp: less_Suc_eq_le)
  have s3: "\<forall>x \<in> set (k # remove1 k ?ks). ?st x \<le> Suc (tick h)"
    using sub bound by (auto simp: le_Suc_eq)
  from inv k have "LRUCache_inv ((cache h)\<lparr>lru_list := (k, v) # erase_node k (lru_list (cache h))\<rparr>)"
    by (simp add: hist_inv_def LRUCache_inv_touch)
  with s1 s2 s3 show ?thesis
    by (simp add: hist_inv_def keys_erase_node)
qed

lemma hist_inv_step: "hist_inv h \<Longrightarrow> hist_inv (hist_step h opn)"
proof (cases opn)
  case (Get k)
  assume inv: "hist_inv h"
  show ?thesis
  proof (cases "map_of (lru_list (cache h)) k")
    case None
    with inv Get show ?thesis
      by (auto simp: hist_step_def hist_inv_def LRUCache_get_def LRUCache_contains_def le_Suc_eq)
  next
    case (Some w)
    then have "k \<in> set (map fst (lru_list (cache h)))" by (rule map_of_Some_keys)
    from hist_inv_touch [OF inv this, of w] Get Some show ?thesis
      by (simp add: hist_step_def LRUCache_get_def LRUCache_contains_def)
  qed
next
  case (Set k v)
  assume inv: "hist_inv h"
  show ?thesis
  proof (cases "map_of (lru_list (cache h)) k")
    case (Some w)
    then have "k \<in> set (map fst (lru_list (cache h)))" by (rule map_of_Some_keys)
    from hist_inv_touch [OF inv this, of v] Set Some show ?thesis
      by (simp add: hist_step_def LRUCache_set_def)
  next
    case None
    let ?ks = "map fst (lru_list (cache h))"
    let ?st = "(stamp h)(k := Suc (tick h))"
    let ?l = "(k, v) # lru_list (cache h)"
    from None have nk: "k \<notin> set ?ks" by (simp add: map_of_None_keys)
    from inv have bound: "\<forall>x \<in> set ?ks. stamp h x \<le> tick h"
      and srt: "sorted_wrt (\<lambda>a b. stamp h b < stamp h a) ?ks"
      by (auto simp: hist_inv_def)
    from srt have s1: "sorted_wrt (\<lambda>a b. ?st b < ?st a) ?ks"
      by (rule sorted_wrt_mono_rel [rotated]) (use nk in auto)
    have s2: "\<forall>x \<in> set ?ks. ?st x < ?st k"
      using nk bound by (auto simp: less_Suc_eq_le)
    from s1 s2 have full: "sorted_wrt (\<lambda>a b. ?st b < ?st a) (map fst ?l)" by simp
    have bnd: "\<forall>x \<in> set (map fst ?l). ?st x \<le> Suc (tick h)"
      using bound by (auto simp: le_Suc_eq)
    have cinv: "LRUCache_inv (snd (LRUCache_set (cache h) k v))"
      using inv by (simp add: hist_inv_def LRUCache_inv_set)
    show ?thesis
    proof (cases "length ?l > lru_capacity (cache h)")
      case True
      from full have "sorted_wrt (\<lambda>a b. ?st b < ?st a) (butlast (map fst ?l))"
        by (rule sorted_wrt_butlast_keys)
      then have b1: "sorted_wrt (\<lambda>a b. ?st b < ?st a) (map fst (butlast ?l))"
        by (simp only: map_butlast)
      have "set (map fst (butlast ?l)) \<subseteq> set (map fst ?l)"
        by (metis in_set_butlastD map_butlast subsetI)
      with bnd have b2: "\<forall>x \<in> set (map fst (butlast ?l)). ?st x \<le> Suc (tick h)" by blast
      from True None have eq: "snd (LRUCache_set (cache h) k v) = (cache h)\<lparr>lru_list := butlast ?l\<rparr>"
        by (simp add: LRUCache_set_def)
      from cinv b1 b2 Set eq show ?thesis
        by (simp add: hist_step_def hist_inv_def del: butlast.simps)
    next
      case False
      with None have eq: "snd (LRUCache_set (cache h) k v) = (cache h)\<lparr>lru_list := ?l\<rparr>"
        by (simp add: LRUCache_set_def)
      from cinv full bnd Set eq show ?thesis
        by (simp add: hist_step_def hist_inv_def)
    qed
  qed
next
  case (Del k)
  assume inv: "hist_inv h"
  let ?ks = "map fst (lru_list (cache h))"
  have sub: "set (remove1 k ?ks) \<subseteq> set ?ks" by (rule set_remove1_subset)
  from inv have bound: "\<forall>x \<in> set ?ks. stamp h x \<le> tick h"
    and srt: "sorted_wrt (\<lambda>a b. stamp h b < stamp h a) ?ks"
    by (auto simp: hist_inv_def)
  from srt have s1: "sorted_wrt (\<lambda>a b. stamp h b < stamp h a) (remove1 k ?ks)"
    by (rule sorted_wrt_remove1_keys)
  from sub bound have s2: "\<forall>x \<in> set (remove1 k ?ks). stamp h x \<le> Suc (tick h)"
    by (auto simp: le_Suc_eq)
  have cinv: "LRUCache_inv (snd (LRUCache_del (cache h) k))"
    using inv by (simp add: hist_inv_def LRUCache_inv_del)
  show ?thesis
  proof (cases "map_of (lru_list (cache h)) k")
    case None
    with inv Del show ?thesis
      by (auto simp: hist_step_def hist_inv_def LRUCache_del_def le_Suc_eq)
  next
    case (Some w)
    with cinv s1 s2 Del show ?thesis
      by (simp add: hist_step_def hist_inv_def LRUCache_del_def keys_erase_node)
  qed
qed

lemma hist_inv_run: "hist_inv h \<Longrightarrow> hist_inv (hist_run h ops)"
  by (induction ops arbitrary: h) (simp_all add: hist_inv_step)

lemma hist_inv_init: "LRUCache_new C = Inr c0 \<Longrightarrow> hist_inv (hist_init c0)"
  by (auto simp: LRUCache_new_def hist_init_def hist_inv_def LRUCache_inv_def split: if_splits)

lemma lru_capacity_step: "lru_capacity (cache (hist_step h opn)) = lru_capacity (cache h)"
  by (cases opn)
     (auto simp: hist_step_def LRUCache_get_def LRUCache_set_def LRUCache_del_def Let_def
           split: option.splits)

lemma lru_capacity_run: "lru_capacity (cache (hist_run h ops)) = lru_capacity (cache h)"
  by (induction ops arbitrary: h) (simp_all add: lru_capacity_step)

lemma last_is_least:
  assumes "sorted_wrt (\<lambda>a b. f b < f a) xs" and "xs \<noteq> []" and "x \<in> set xs" and "x \<noteq> last xs"
  shows "f (last xs) < f x"
proof -
  from assms(2) have abl: "butlast xs @ [last xs] = xs" by (rule append_butlast_last_id)
  from assms(3) have "x \<in> set (butlast xs @ [last xs])" by (simp only: abl)
  with assms(4) have "x \<in> set (butlast xs)" by simp
  moreover from assms(1) have "sorted_wrt (\<lambda>a b. f b < f a) (butlast xs @ [last xs])"
    by (simp only: abl)
  ultimately show ?thesis by (simp add: sorted_wrt_append)
qed

lemmas lru_defs = LRUCache_new_def LRUCache_get_def LRUCache_set_def LRUCache_del_def
  LRUCache_contains_def LRUCache_size_def hist_init_def hist_step_def

text \<open>
  Claim C1. For every capacity \<open>C > 0\<close> and every sequence of get, set and delete
  operations on a new cache of that capacity, the number of resident entries never
  exceeds \<open>C\<close>; and a \<open>set\<close> of a key that is not resident, when \<open>C\<close> entries are
  resident, evicts a resident key whose last touch is older than the last touch of every
  other resident key, keeps all the others, and makes the new key resident. In the run
  set(a,1); set(b,2); get(a); set(c,3) on capacity 2 the evicted key is b, and c and a
  remain.
\<close>

theorem LRUCache_capacity_and_eviction:
  assumes new: "LRUCache_new C = Inr c0"
  shows "LRUCache_size (cache (hist_run (hist_init c0) ops)) \<le> C \<and>
         (LRUCache_size (cache (hist_run (hist_init c0) ops)) = C \<and>
          \<not> LRUCache_contains (cache (hist_run (hist_init c0) ops)) key \<longrightarrow>
            (let h = hist_run (hist_init c0) ops;
                 evicted = fst (LRUCache_set (cache h) key val);
                 c' = snd (LRUCache_set (cache h) key val)
             in LRUCache_contains (cache h) evicted \<and>
                (\<forall>k. LRUCache_contains (cache h) k \<and> k \<noteq> evicted \<longrightarrow> stamp h evicted < stamp h k) \<and>
                (\<forall>k. LRUCache_contains c' k = (k = key \<or> (LRUCache_contains (cache h) k \<and> k \<noteq> evicted))) \<and>
                LRUCache_size c' = C))"
proof -
  let ?h = "hist_run (hist_init c0) ops"
  let ?l = "lru_list (cache ?h)"
  let ?ks = "map fst ?l"
  from new have C: "0 < C" "lru_capacity c0 = C"
    by (auto simp: LRUCache_new_def split: if_splits)
  have inv: "hist_inv ?h" by (rule hist_inv_run [OF hist_inv_init [OF new]])
  have cap: "lru_capacity (cache ?h) = C"
    using C by (simp add: lru_capacity_run hist_init_def)
  from inv cap have size: "LRUCache_size (cache ?h) \<le> C"
    by (simp add: hist_inv_def LRUCache_inv_def LRUCache_size_def)
  have evict: "LRUCache_contains (cache ?h) (fst (LRUCache_set (cache ?h) key val)) \<and>
      (\<forall>k. LRUCache_contains (cache ?h) k \<and> k \<noteq> fst (LRUCache_set (cache ?h) key val) \<longrightarrow>
           stamp ?h (fst (LRUCache_set (cache ?h) key val)) < stamp ?h k) \<and>
      (\<forall>k. LRUCache_contains (snd (LRUCache_set (cache ?h) key val)) k =
           (k = key \<or> (LRUCache_contains (cache ?h) k \<and> k \<noteq> fst (LRUCache_set (cache ?h) key val)))) \<and>
      LRUCache_size (snd (LRUCache_set (cache ?h) key val)) = C"
    if full: "LRUCache_size (cache ?h) = C" and absent: "\<not> LRUCache_contains (cache ?h) key"
  proof -
    from full C have ne: "?l \<noteq> []" by (auto simp: LRUCache_size_def)
    from absent have none: "map_of ?l key = None" by (simp add: LRUCache_contains_def)
    then have nk: "key \<notin> set ?ks" by (simp add: map_of_None_keys)
    from inv have d: "distinct ?ks" and srt: "sorted_wrt (\<lambda>a b. stamp ?h b < stamp ?h a) ?ks"
      by (auto simp: hist_inv_def LRUCache_inv_def)
    from none full cap ne have ev: "fst (LRUCache_set (cache ?h) key val) = fst (last ?l)"
      and c': "snd (LRUCache_set (cache ?h) key val) = (cache ?h)\<lparr>lru_list := (key, val) # butlast ?l\<rparr>"
      by (simp_all add: LRUCache_set_def LRUCache_size_def)
    from ne have lastk: "fst (last ?l) = last ?ks" by (simp add: last_map)
    from ne have nek: "?ks \<noteq> []" by simp
    then have in_l: "last ?ks \<in> set ?ks" by (rule last_in_set)
    have contains_iff: "\<And>c k. LRUCache_contains c k = (k \<in> set (map fst (lru_list c)))"
      by (simp add: LRUCache_contains_def map_of_None_keys)
    have p1: "LRUCache_contains (cache ?h) (last ?ks)"
      using in_l by (simp only: contains_iff)
    have p2: "stamp ?h (last ?ks) < stamp ?h k" if "LRUCache_contains (cache ?h) k" "k \<noteq> last ?ks" for k
      using last_is_least [OF srt _ _ that(2)] that(1) ne by (simp add: contains_iff)
    have abl: "butlast ?ks @ [last ?ks] = ?ks" using nek by (rule append_butlast_last_id)
    from d have "distinct (butlast ?ks @ [last ?ks])" by (simp only: abl)
    then have notin: "last ?ks \<notin> set (butlast ?ks)" by simp
    have "set (butlast ?ks @ [last ?ks]) = set ?ks" by (simp only: abl)
    then have setks: "set ?ks = insert (last ?ks) (set (butlast ?ks))" by auto
    have p3: "LRUCache_contains ((cache ?h)\<lparr>lru_list := (key, val) # butlast ?l\<rparr>) k =
          (k = key \<or> (LRUCache_contains (cache ?h) k \<and> k \<noteq> last ?ks))" for k
    proof -
      have "map fst (butlast ?l) = butlast ?ks" by (simp add: map_butlast)
      then show ?thesis
        using notin setks by (auto simp: contains_iff)
    qed
    have p4: "LRUCache_size ((cache ?h)\<lparr>lru_list := (key, val) # butlast ?l\<rparr>) = C"
      using full C(1) by (simp add: LRUCache_size_def)
    from p1 p2 p3 p4 show ?thesis
      by (simp only: ev c' lastk) blast
  qed
  from size evict show ?thesis
    by (simp only: Let_def) blast
qed

theorem LRUCache_capacity_and_eviction_witness:
  "LRUCache_new 2 = Inr \<lparr>lru_capacity = 2, lru_list = []\<rparr> \<and>
   (let h = hist_run (hist_init \<lparr>lru_capacity = 2, lru_list = []\<rparr>)
              [Set ''a'' ''1'', Set ''b'' ''2'', Get ''a'']
    in LRUCache_size (cache h) = 2 \<and> \<not> LRUCache_contains (cache h) ''c'' \<and>
       fst (LRUCache_set (cache h) ''c'' ''3'') = ''b'' \<and>
       map fst (lru_list (snd (LRUCache_set (cache h) ''c'' ''3''))) = [''c'', ''a''] \<and>
       stamp h ''b'' < stamp h ''a'')"
  using LRUCache_capacity_and_eviction
          [of 2 "\<lparr>lru_capacity = 2, lru_list = []\<rparr>"
              "[Set ''a'' ''1'', Set ''b'' ''2'', Get ''a'']" "''c''" "''3''"]
  by (simp add: lru_defs)

lemmas kv_defs = KVStore_new_def KVStore_set_def KVStore_get_def KVStore_del_def KVStore_ttl_def
  KVStore_keys_def KVStore_flush_def KVStore_size_def KVStore_capacity_def
  TTLManager_set_def TTLManager_remove_def TTLManager_ttl_def TTLManager_ttl_ms_def
  TTLManager_setAbsolute_def ticks_per_second_def ticks_per_ms_def signed_divide_int_def
  LRUCache_entries_def LRUCache_clear_def wrap64_def

section \<open>Flush\<close>

text \<open>
  Claim C9. For every store, \<open>flush\<close> empties the cache (size 0, no keys) and leaves the
  manager's deadline map exactly as it was.
\<close>

theorem KVStore_flush_keeps_deadlines:
  "KVStore_size (KVStore_flush s) = 0 \<and> KVStore_keys (KVStore_flush s) = [] \<and>
   kv_ttl (KVStore_flush s) = kv_ttl s \<and>
   expiry_map (kv_ttl (KVStore_flush s)) = expiry_map (kv_ttl s)"
  by (simp add: KVStore_flush_def KVStore_size_def KVStore_keys_def LRUCache_clear_def
      LRUCache_size_def LRUCache_entries_def)

section \<open>Set registers, refreshes or clears the deadline\<close>



lemma KVStore_set_cache: "kv_cache (snd (KVStore_set s now k v ttl)) = snd (LRUCache_set (kv_cache s) k v)"
  by (simp add: KVStore_set_def Let_def split_beta)








section \<open>Evaluating the codec on concrete files\<close>

lemma ostream_write_rec:
  "ostream_write bs \<lparr>out_bytes = x, out_fail = False\<rparr> = \<lparr>out_bytes = x @ bs, out_fail = False\<rparr>"
  by (simp add: ostream_write_def)

lemma read_entries_2: "read_entries 2 ifs = read_entries (Suc (Suc 0)) ifs"
  by (simp add: numeral_2_eq_2)

lemmas codec_defs = PersistenceEngine_save_def PersistenceEngine_load_def write32_def write64_def
  writeString_def ostream_write_rec read32_def read64_def readString_def istream_read_def
  zero_filled_def MAGIC_def VERSION_def ifstream_of_def ofstream_new_def read_entries_2

lemma le_bytes_4:
  "le_bytes 4 v = [char_of v, char_of (v div 256), char_of (v div 65536), char_of (v div 16777216)]"
proof -
  have "le_bytes (Suc (Suc (Suc (Suc 0)))) v =
     [char_of v, char_of (v div 256), char_of (v div 65536), char_of (v div 16777216)]"
    by (simp add: div_mult2_eq [symmetric])
  moreover have "(4::nat) = Suc (Suc (Suc (Suc 0)))" by simp
  ultimately show ?thesis by (simp only:)
qed

lemma le_bytes_8:
  "le_bytes 8 v = le_bytes 4 v @ le_bytes 4 (v div 4294967296)"
proof -
  have "le_bytes (Suc (Suc (Suc (Suc (Suc (Suc (Suc (Suc 0)))))))) v =
     le_bytes (Suc (Suc (Suc (Suc 0)))) v @ le_bytes (Suc (Suc (Suc (Suc 0)))) (v div 4294967296)"
    by (simp add: div_mult2_eq [symmetric])
  moreover have "(4::nat) = Suc (Suc (Suc (Suc 0)))" by simp
  moreover have "(8::nat) = Suc (Suc (Suc (Suc (Suc (Suc (Suc (Suc 0)))))))" by simp
  ultimately show ?thesis by (simp only:)
qed

lemma char_of_eq_iff: "(char_of (n::nat) = c) = (n mod 256 = of_char c)"
  by (metis char_of_char of_char_of char_of_mod_256)

lemma le_value_append: "le_value (xs @ ys) = le_value xs + 256 ^ length xs * le_value ys"
  by (induction xs) (simp_all add: algebra_simps)

lemma le_value_zeros: "le_value (replicate n (char_of (0::nat))) = 0"
  by (induction n) simp_all

lemma le_value_padded: "le_value (got @ replicate n (char_of (0::nat))) = le_value got"
  by (simp add: le_value_append le_value_zeros)

lemma unat_minus_1_64: "unat (- 1 :: 64 word) = 18446744073709551615"
  by (simp add: unsigned_minus_1_eq_mask mask_eq_exp_minus_1)

lemmas codec_eval = codec_defs le_bytes_4 le_bytes_8 char_of_eq_iff le_value_padded
  le_value_zeros unat_minus_1_64

lemma save_a: "PersistenceEngine_save True [entry_a] = Inr file_a"
  by (simp add: codec_eval entry_a_def file_a_def header1_def)

lemma load_a: "PersistenceEngine_load (Some file_a) = Inr [entry_a]"
  by (simp add: codec_eval entry_a_def file_a_def header1_def)

lemma load_a_trunc: "PersistenceEngine_load (Some (take 29 file_a)) =
   Inr [\<lparr>se_key = ''a'', se_value = ''1'', se_ttl_ms = 16777215\<rparr>]"
  by (simp add: codec_eval entry_a_def file_a_def header1_def)

lemma load_hdr: "PersistenceEngine_load (Some header1) =
   Inr [\<lparr>se_key = [], se_value = [], se_ttl_ms = 0\<rparr>]"
  by (simp add: codec_eval header1_def)

lemma replicate_8: "replicate 8 x = [x, x, x, x, x, x, x, x]"
  by (simp add: numeral_eq_Suc)

lemmas file_defs = file_a_def header1_def file_bad_magic_def file_bad_version_def
  file_bad_count_def file_bad_length_def replicate_8

section \<open>A snapshot that does not decode leaves the store as it was\<close>

text \<open>
  Claim C8. Whenever \<^verbatim>\<open>PersistenceEngine::load\<close> raises an error on the file (bad
  magic, bad version, negative record count, implausible string length, or any other),
  \<^verbatim>\<open>KVStore::load\<close> raises that error and the store is exactly as before the call:
  cache, deadlines and counters.
\<close>

theorem KVStore_load_error_keeps_state:
  "PersistenceEngine_load file = Inl e \<Longrightarrow> KVStore_load s now file = (Inl e, s)"
  by (simp add: KVStore_load_def)

theorem KVStore_load_error_keeps_state_witness:
  "PersistenceEngine_load (Some file_bad_magic) = Inl BadMagic \<and>
   KVStore_load store_a30 5 (Some file_bad_magic) = (Inl BadMagic, store_a30) \<and>
   PersistenceEngine_load (Some file_bad_version) = Inl BadVersion \<and>
   KVStore_load store_a30 5 (Some file_bad_version) = (Inl BadVersion, store_a30) \<and>
   PersistenceEngine_load (Some file_bad_count) = Inl CorruptCount \<and>
   KVStore_load store_a30 5 (Some file_bad_count) = (Inl CorruptCount, store_a30) \<and>
   PersistenceEngine_load (Some file_bad_length) = Inl ImplausibleLength \<and>
   KVStore_load store_a30 5 (Some file_bad_length) = (Inl ImplausibleLength, store_a30)"
proof -
  have m: "PersistenceEngine_load (Some file_bad_magic) = Inl BadMagic"
    by (simp add: codec_eval file_defs)
  have v: "PersistenceEngine_load (Some file_bad_version) = Inl BadVersion"
    by (simp add: codec_eval file_defs)
  have c: "PersistenceEngine_load (Some file_bad_count) = Inl CorruptCount"
    by (simp add: codec_eval file_defs)
  have l: "PersistenceEngine_load (Some file_bad_length) = Inl ImplausibleLength"
    by (simp add: codec_eval file_defs)
  show ?thesis
    using KVStore_load_error_keeps_state [OF m, of store_a30 5]
          KVStore_load_error_keeps_state [OF v, of store_a30 5]
          KVStore_load_error_keeps_state [OF c, of store_a30 5]
          KVStore_load_error_keeps_state [OF l, of store_a30 5] m v c l
    by simp
qed

section \<open>Truncated snapshot files\<close>

text \<open>
  Claim C3 says that \<^verbatim>\<open>PersistenceEngine::load\<close> raises a read error on every strict
  prefix of a well-formed snapshot file that keeps the magic and the version. The code
  does not: a read that runs into the end of the file sets \<^verbatim>\<open>eofbit\<close> together with
  \<^verbatim>\<open>failbit\<close>, and the final test \<^verbatim>\<open>!ifs && !ifs.eof()\<close> lets that state pass. The
  34-byte file written for the single record (a, 1, no TTL) is read back as that record;
  cut to 29 bytes (inside the TTL field) it is read as the record (a, 1, TTL 16777215 ms),
  and cut to its 16-byte header as one record with empty key, empty value and TTL 0. No
  error is raised in either case.
\<close>

theorem PersistenceEngine_load_truncated_returns:
  "PersistenceEngine_save True [entry_a] = Inr file_a \<and>
   PersistenceEngine_load (Some file_a) = Inr [entry_a] \<and>
   length file_a = 34 \<and>
   PersistenceEngine_load (Some (take 29 file_a)) =
     Inr [\<lparr>se_key = ''a'', se_value = ''1'', se_ttl_ms = 16777215\<rparr>] \<and>
   PersistenceEngine_load (Some (take 16 file_a)) =
     Inr [\<lparr>se_key = [], se_value = [], se_ttl_ms = 0\<rparr>]"
  by (simp add: codec_eval entry_a_def file_a_def header1_def)

text \<open>
  More generally, whatever the bytes of the file: a stream that fails has reached the end
  of the file, every read keeps it so, and \<^verbatim>\<open>PersistenceEngine::load\<close> never raises
  its read error.
\<close>

lemma istream_read_eof:
  "in_fail ifs \<longrightarrow> in_eof ifs \<Longrightarrow>
     in_fail (snd (istream_read n ifs)) \<longrightarrow> in_eof (snd (istream_read n ifs))"
  by (auto simp: istream_read_def)

lemma read32_eof:
  "in_fail ifs \<longrightarrow> in_eof ifs \<Longrightarrow> in_fail (snd (read32 ifs)) \<longrightarrow> in_eof (snd (read32 ifs))"
  using istream_read_eof [of ifs 4] by (simp add: read32_def split_beta)

lemma read64_eof:
  "in_fail ifs \<longrightarrow> in_eof ifs \<Longrightarrow> in_fail (snd (read64 ifs)) \<longrightarrow> in_eof (snd (read64 ifs))"
  using istream_read_eof [of ifs 8] by (simp add: read64_def split_beta)

lemma readString_eof:
  assumes "in_fail ifs \<longrightarrow> in_eof ifs"
  shows "case readString ifs of
           Inl e \<Rightarrow> e = ImplausibleLength
         | Inr (s, ifs') \<Rightarrow> in_fail ifs' \<longrightarrow> in_eof ifs'"
  using istream_read_eof [OF read32_eof [OF assms], of "unat (fst (read32 ifs))"]
  by (simp add: readString_def split_beta)

lemma read_entries_eof:
  assumes "in_fail ifs \<longrightarrow> in_eof ifs"
  shows "case read_entries n ifs of
           Inl e \<Rightarrow> e = ImplausibleLength
         | Inr (es, ifs') \<Rightarrow> in_fail ifs' \<longrightarrow> in_eof ifs'"
  using assms
proof (induction n arbitrary: ifs)
  case 0
  then show ?case by simp
next
  case (Suc n)
  show ?case
  proof (cases "readString ifs")
    case (Inl e)
    with readString_eof [OF Suc.prems] show ?thesis by simp
  next
    case (Inr r1)
    with readString_eof [OF Suc.prems] have i1: "in_fail (snd r1) \<longrightarrow> in_eof (snd r1)"
      by (simp add: split_beta)
    show ?thesis
    proof (cases "readString (snd r1)")
      case (Inl e)
      with readString_eof [OF i1] Inr show ?thesis by (simp add: split_beta)
    next
      case r2: (Inr r2)
      with readString_eof [OF i1] have i2: "in_fail (snd r2) \<longrightarrow> in_eof (snd r2)"
        by (simp add: split_beta)
      from Suc.IH [OF read64_eof [OF i2]] Inr r2 show ?thesis
        by (auto simp: split_beta split: sum.splits)
    qed
  qed
qed

lemma PersistenceEngine_load_no_ReadError: "PersistenceEngine_load file \<noteq> Inl ReadError"
proof (cases "file")
  case None
  then show ?thesis by (simp add: PersistenceEngine_load_def)
next
  case (Some bytes)
  let ?ifs3 = "snd (read64 (snd (read32 (snd (read32 (ifstream_of bytes))))))"
  have "in_fail (ifstream_of bytes) \<longrightarrow> in_eof (ifstream_of bytes)"
    by (simp add: ifstream_of_def)
  then have "in_fail ?ifs3 \<longrightarrow> in_eof ?ifs3"
    by (intro read64_eof read32_eof)
  from read_entries_eof [OF this,
      of "nat (sint (fst (read64 (snd (read32 (snd (read32 (ifstream_of bytes))))))))"] Some
  show ?thesis
    by (auto simp: PersistenceEngine_load_def Let_def split_beta split: sum.splits)
qed

section \<open>Load and the deadlines recorded before it\<close>

text \<open>
  Claim C4 says that \<open>load\<close> clears the current state, so that no deadline recorded
  before the call remains unless a snapshot record re-establishes it. The code clears
  the cache only. In a store where key a was set with a TTL of 30 seconds, loading the
  snapshot whose single record is (a, 1, no TTL) leaves a resident with value 1 and with
  the deadline recorded before the call: its TTL reads 30, not -1.
\<close>

theorem KVStore_load_keeps_old_deadline:
  "LRUCache_contains (kv_cache store_a30) ''a'' \<and>
   map_of (expiry_map (kv_ttl store_a30)) ''a'' = Some 30000000000 \<and>
   PersistenceEngine_load (Some file_a) = Inr [entry_a] \<and>
   fst (KVStore_load store_a30 0 (Some file_a)) = Inr () \<and>
   map_of (lru_list (kv_cache (snd (KVStore_load store_a30 0 (Some file_a))))) ''a'' = Some ''1'' \<and>
   map_of (expiry_map (kv_ttl (snd (KVStore_load store_a30 0 (Some file_a))))) ''a'' = Some 30000000000 \<and>
   KVStore_ttl (snd (KVStore_load store_a30 0 (Some file_a))) 0 ''a'' = 30"
  by (simp add: load_a KVStore_load_def entry_a_def store_a30_def store1_def kv_defs lru_defs)

section \<open>Eviction and the evicted key's deadline\<close>

text \<open>
  Claim C5 says that for every key the cache evicts, the empty key included,
  \<^verbatim>\<open>KVStore::set\<close> removes the key's deadline and adds one to the eviction counter.
  The cache reports "nothing evicted" as the empty string, so the eviction of the empty
  key is not seen: in a store of capacity 1 that holds the empty key with a TTL of 30
  seconds, setting key a evicts the empty key, yet its deadline stays recorded and the
  eviction counter does not move.
\<close>

theorem KVStore_set_evicts_empty_key_silently:
  "LRUCache_contains (kv_cache store_e30) [] \<and>
   map_of (expiry_map (kv_ttl store_e30)) [] = Some 30000000000 \<and>
   fst (KVStore_set store_e30 0 ''a'' ''w'' (- 1)) = [] \<and>
   \<not> LRUCache_contains (kv_cache (snd (KVStore_set store_e30 0 ''a'' ''w'' (- 1)))) [] \<and>
   map_of (expiry_map (kv_ttl (snd (KVStore_set store_e30 0 ''a'' ''w'' (- 1))))) [] = Some 30000000000 \<and>
   evictions (snd (KVStore_set store_e30 0 ''a'' ''w'' (- 1))) = evictions store_e30"
  by (simp add: store_e30_def store1_def kv_defs lru_defs)

text \<open>
  For an evicted key that is not the empty string the code does what the claim says:
  the deadline is gone, the counter is one higher, the key's TTL reads -2, and no later
  wake-up of the manager hands the key to the expiry callback.
\<close>

lemma KVStore_set_evicts_nonempty_key:
  assumes inv: "LRUCache_inv (kv_cache s)"
    and absent: "\<not> LRUCache_contains (kv_cache s) key"
    and full: "LRUCache_size (kv_cache s) = KVStore_capacity s"
    and ne: "fst (LRUCache_set (kv_cache s) key val) \<noteq> []"
  shows "fst (KVStore_set s now key val ttl_seconds) = fst (LRUCache_set (kv_cache s) key val) \<and>
         LRUCache_contains (kv_cache s) (fst (KVStore_set s now key val ttl_seconds)) \<and>
         map_of (expiry_map (kv_ttl (snd (KVStore_set s now key val ttl_seconds))))
           (fst (KVStore_set s now key val ttl_seconds)) = None \<and>
         evictions (snd (KVStore_set s now key val ttl_seconds)) = evictions s + 1 \<and>
         KVStore_ttl (snd (KVStore_set s now key val ttl_seconds)) t
           (fst (KVStore_set s now key val ttl_seconds)) = - 2 \<and>
         fst (KVStore_set s now key val ttl_seconds)
           \<notin> set (expired_keys (kv_ttl (snd (KVStore_set s now key val ttl_seconds))) t)"
proof -
  let ?l = "lru_list (kv_cache s)"
  let ?e = "fst (LRUCache_set (kv_cache s) key val)"
  let ?s' = "snd (KVStore_set s now key val ttl_seconds)"
  from inv have d: "distinct (map fst ?l)" and cap: "0 < lru_capacity (kv_cache s)"
    by (auto simp: LRUCache_inv_def)
  from absent have none: "map_of ?l key = None" by (simp add: LRUCache_contains_def)
  then have nk: "key \<notin> set (map fst ?l)" by (simp add: map_of_None_keys)
  from full cap have nel: "?l \<noteq> []" by (auto simp: LRUCache_size_def KVStore_capacity_def)
  then have nek: "map fst ?l \<noteq> []" by simp
  from none full nel have ev: "?e = last (map fst ?l)"
    by (simp add: LRUCache_set_def LRUCache_size_def KVStore_capacity_def last_map)
  from none full nel have c': "snd (LRUCache_set (kv_cache s) key val)
      = (kv_cache s)\<lparr>lru_list := (key, val) # butlast ?l\<rparr>"
    by (simp add: LRUCache_set_def LRUCache_size_def KVStore_capacity_def)
  have e_in: "?e \<in> set (map fst ?l)" unfolding ev using nek by (rule last_in_set)
  from e_in nk have e_key: "?e \<noteq> key" by metis
  have abl: "butlast (map fst ?l) @ [last (map fst ?l)] = map fst ?l"
    using nek by (rule append_butlast_last_id)
  from d have "distinct (butlast (map fst ?l) @ [last (map fst ?l)])" by (simp only: abl)
  then have "last (map fst ?l) \<notin> set (butlast (map fst ?l))" by simp
  then have e_out: "?e \<notin> set (map fst (butlast ?l))" by (simp add: ev map_butlast)
  have r1: "fst (KVStore_set s now key val ttl_seconds) = ?e"
    by (simp add: KVStore_set_def Let_def split_beta)
  have r2: "LRUCache_contains (kv_cache s) ?e"
    using e_in by (simp add: LRUCache_contains_def map_of_None_keys)
  have r3: "map_of (expiry_map (kv_ttl ?s')) ?e = None"
    using ne e_key
    by (simp add: KVStore_set_def Let_def split_beta TTLManager_set_def TTLManager_remove_def
        update_conv' delete_conv')
  have r4: "evictions ?s' = evictions s + 1"
    using ne by (simp add: KVStore_set_def Let_def split_beta)
  have "\<not> LRUCache_contains (kv_cache ?s') ?e"
    using e_out e_key by (simp add: KVStore_set_cache c' LRUCache_contains_def map_of_None_keys)
  then have r5: "KVStore_ttl ?s' t ?e = - 2" by (simp add: KVStore_ttl_def)
  from r3 have "?e \<notin> set (map fst (expiry_map (kv_ttl ?s')))" by (simp add: map_of_None_keys)
  then have r6: "?e \<notin> set (expired_keys (kv_ttl ?s') t)"
    by (auto simp: expired_keys_def)
  from r1 r2 r3 r4 r5 r6 show ?thesis by (simp only: simp_thms)
qed

section \<open>The value of \<^verbatim>\<open>KVStore::ttl\<close>\<close>






section \<open>Save and load\<close>

subsection \<open>The codec reads back what it wrote\<close>

lemma length_le_bytes: "length (le_bytes n v) = n"
  by (induction n arbitrary: v) simp_all

lemma le_value_le_bytes: "le_value (le_bytes n v) = v mod 256 ^ n"
proof (induction n arbitrary: v)
  case 0
  show ?case by simp
next
  case (Suc n)
  have "le_value (le_bytes (Suc n) v) = v mod 256 + 256 * (v div 256 mod 256 ^ n)"
    by (simp add: Suc)
  also have "\<dots> = v mod (256 * 256 ^ n)"
    by (simp add: mod_mult2_eq)
  finally show ?case by simp
qed

lemma istream_read_exact:
  "length bs = n \<Longrightarrow> istream_read n (ifstream_of (bs @ rest)) = (bs, ifstream_of rest)"
  by (simp add: istream_read_def ifstream_of_def)

lemma read32_le_bytes:
  "read32 (ifstream_of (le_bytes 4 (unat v) @ rest)) = (v, ifstream_of rest)"
proof -
  have "unat v < 2 ^ 32" using unsigned_less [of v] by simp
  then have "unat v mod 256 ^ 4 = unat v" by simp
  then show ?thesis
    by (simp add: read32_def istream_read_exact length_le_bytes zero_filled_def le_value_le_bytes)
qed

lemma read64_le_bytes:
  "read64 (ifstream_of (le_bytes 8 (unat v) @ rest)) = (v, ifstream_of rest)"
proof -
  have "unat v < 2 ^ 64" using unsigned_less [of v] by simp
  then have "unat v mod 256 ^ 8 = unat v" by simp
  then show ?thesis
    by (simp add: read64_def istream_read_exact length_le_bytes zero_filled_def le_value_le_bytes)
qed

lemma ostream_write_ok:
  "\<not> out_fail ofs \<Longrightarrow> ostream_write bs ofs = ofs\<lparr>out_bytes := out_bytes ofs @ bs\<rparr>"
  by (simp add: ostream_write_def)









lemma sint_count64:
  assumes "n < 2 ^ 63"
  shows "sint (word_of_nat n :: 64 word) = int n"
proof -
  have a: "int n < 2 ^ 63" using assms by simp
  have b: "- (2 ^ 63) \<le> int n" by simp
  have "sint (word_of_nat n :: 64 word) = signed_take_bit 63 (int n)"
    by (simp add: signed_of_nat)
  also have "\<dots> = int n"
    using b a by (rule signed_take_bit_int_eq_self)
  finally show ?thesis .
qed


subsection \<open>The entries that save collects and what load makes of them\<close>

























lemma clamp_mono: "(a::int) \<le> b \<Longrightarrow> (if a > 0 then a else 0) \<le> (if b > 0 then b else 0)"
  by simp


subsection \<open>Save and load at concrete stores\<close>

lemma store_ab_eq:
  "store_ab = \<lparr>kv_cache = \<lparr>lru_capacity = 2, lru_list = [(''b'', ''2''), (''a'', ''1'')]\<rparr>,
               kv_ttl = \<lparr>expiry_map = [(''a'', 30000000000)]\<rparr>,
               hits = 0, misses = 0, evictions = 0, sets = 2, dels = 0, expirations = 0\<rparr>"
  by (simp add: store_ab_def store2_def kv_defs lru_defs)


lemma save_entries_ab:
  "save_entries (kv_ttl store_ab) clk_at1 (lru_list (kv_cache store_ab)) =
     [\<lparr>se_key = ''b'', se_value = ''2'', se_ttl_ms = - 1\<rparr>,
      \<lparr>se_key = ''a'', se_value = ''1'', se_ttl_ms = 29000\<rparr>]"
  by (simp add: store_ab_eq TTLManager_ttl_ms_def ticks_per_ms_def signed_divide_int_def clk_at1_def)

lemma save_ab: "KVStore_save store_ab clk_at1 True = Inr file_ab"
  by (simp add: KVStore_save_def LRUCache_entries_def save_entries_ab codec_eval file_ab_def)

lemma load_ab:
  "PersistenceEngine_load (Some file_ab) =
     Inr [\<lparr>se_key = ''b'', se_value = ''2'', se_ttl_ms = - 1\<rparr>,
          \<lparr>se_key = ''a'', se_value = ''1'', se_ttl_ms = 29000\<rparr>]"
  by (simp add: codec_eval file_ab_def)










subsection \<open>Strings beyond the accepted length, and a smaller capacity\<close>

text \<open>
  \<open>save\<close> writes a key of more than 1 MiB as it is, and \<open>load\<close> rejects the file: the
  bound on the lengths in the round trip is needed.
\<close>

lemma writeString_appends:
  assumes "\<not> out_fail ofs"
  shows "writeString ofs s =
     ofs\<lparr>out_bytes := out_bytes ofs @ le_bytes 4 (unat (word_of_nat (length s) :: 32 word))
                          @ take (unat (word_of_nat (length s) :: 32 word)) s\<rparr>"
  using assms by (simp add: writeString_def write32_def ostream_write_def Let_def)

lemma write_entry_appends:
  assumes "\<not> out_fail ofs"
  shows "write64 (writeString (writeString ofs (se_key e)) (se_value e)) (se_ttl_ms e)
     = ofs\<lparr>out_bytes := out_bytes ofs @ entry_bytes e\<rparr>"
  using assms
  by (simp add: entry_bytes_def writeString_appends write64_def ostream_write_def ofstream_new_def)

lemma write_entries_appends:
  assumes "\<not> out_fail ofs"
  shows "write_entries ofs es = ofs\<lparr>out_bytes := out_bytes ofs @ concat (map entry_bytes es)\<rparr>"
  using assms
proof (induction es arbitrary: ofs)
  case Nil
  then show ?case by simp
next
  case (Cons e es)
  then show ?case by (simp add: write_entry_appends)
qed

lemma PersistenceEngine_save_bytes: "PersistenceEngine_save True es = Inr (snapshot_file es)"
  by (simp add: PersistenceEngine_save_def Let_def write32_def write64_def ostream_write_def
      ofstream_new_def write_entries_appends snapshot_file_def)

lemma entry_bytes_long_key:
  assumes "length (se_key e) < 2 ^ 32"
  shows "\<exists>bs. entry_bytes e =
     le_bytes 4 (unat (word_of_nat (length (se_key e)) :: 32 word)) @ bs"
  by (simp add: entry_bytes_def writeString_appends write64_def ostream_write_def ofstream_new_def)

lemma PersistenceEngine_long_key:
  assumes long: "1048576 < length (se_key e)" and fits: "length (se_key e) < 2 ^ 32"
    and count: "Suc (length es) < 2 ^ 63"
  shows "PersistenceEngine_save True (e # es) = Inr (snapshot_file (e # es)) \<and>
         PersistenceEngine_load (Some (snapshot_file (e # es))) = Inl ImplausibleLength"
proof -
  let ?len = "word_of_nat (length (se_key e)) :: 32 word"
  let ?cnt = "word_of_nat (Suc (length es)) :: 64 word"
  have ul: "unat ?len = length (se_key e)" using fits by (simp add: unat_of_nat)
  from entry_bytes_long_key [OF fits] obtain bs where
    "entry_bytes e = le_bytes 4 (unat ?len) @ bs" by blast
  then have eb: "entry_bytes e = le_bytes 4 (length (se_key e)) @ bs" by (simp only: ul)
  let ?rest = "bs @ concat (map entry_bytes es)"
  have "read32 (ifstream_of (le_bytes 4 (unat ?len) @ ?rest)) = (?len, ifstream_of ?rest)"
    by (rule read32_le_bytes)
  then have r32: "read32 (ifstream_of (le_bytes 4 (length (se_key e)) @ ?rest))
      = (?len, ifstream_of ?rest)"
    by (simp only: ul)
  have rs: "readString (ifstream_of (le_bytes 4 (length (se_key e)) @ ?rest))
      = Inl ImplausibleLength"
    using long by (simp add: readString_def r32 ul)
  have cnt: "sint ?cnt = int (Suc (length es))" using count by (rule sint_count64)
  have "PersistenceEngine_load (Some (le_bytes 4 (unat MAGIC) @ le_bytes 4 (unat VERSION) @
       le_bytes 8 (unat ?cnt) @ (le_bytes 4 (length (se_key e)) @ ?rest)))
      = Inl ImplausibleLength"
    by (simp only: PersistenceEngine_load_def option.case Let_def read32_le_bytes read64_le_bytes
        split cnt nat_int read_entries.simps rs) simp
  then have "PersistenceEngine_load (Some (snapshot_file (e # es))) = Inl ImplausibleLength"
    by (simp only: snapshot_file_def list.map concat.simps eb append_assoc length_Cons)
  then show ?thesis by (simp only: PersistenceEngine_save_bytes simp_thms)
qed

text \<open>
  Loaded into an instance of capacity 1, the file of store \<open>store_ab\<close> leaves the key
  that was least recently used: \<open>load\<close> inserts b first and evicts it when a follows.
\<close>

lemma load_into_smaller_store:
  "KVStore_keys store_ab = [''b'', ''a''] \<and>
   KVStore_save store_ab clk_at1 True = Inr file_ab \<and>
   KVStore_keys (snd (KVStore_load store1 5000000000 (Some file_ab))) = [''a'']"
  by (simp add: save_ab KVStore_load_def load_ab store1_def kv_defs lru_defs)
     (simp add: store_ab_eq KVStore_keys_def LRUCache_entries_def)

end
